theory Spec2Isabelle
  imports Main "HOL-Library.Word"
begin

section \<open>Python values used by the SMBIOS parser\<close>

text \<open>
  The program is Python 2: the raw SMBIOS table is a byte string. A byte string is a list
  of 8-bit words; the integers that \<^verbatim>\<open>struct.unpack\<close> returns are
  unbounded Python integers, here natural numbers.
\<close>

type_synonym byte = "8 word"
type_synonym bytes = "byte list"

text \<open>The exceptions the parser can raise.\<close>

datatype error = IndexError | KeyError | StructError

text \<open>\<^verbatim>\<open>s[i]\<close> for a non-negative str_index: a one-character string, or IndexError.\<close>

definition str_index :: "bytes \<Rightarrow> nat \<Rightarrow> error + bytes" where
  "str_index s i = (if i < length s then Inr [s ! i] else Inl IndexError)"

text \<open>\<^verbatim>\<open>s[i:j]\<close> for non-negative bounds: slicing never raises, it clamps.\<close>

definition str_slice :: "bytes \<Rightarrow> nat \<Rightarrow> nat \<Rightarrow> bytes" where
  "str_slice s i j = take (j - i) (drop i s)"

text \<open>
  \<^verbatim>\<open>struct.unpack("<B", c)[0]\<close>, \<^verbatim>\<open>struct.unpack("<H", c)[0]\<close> and
  \<^verbatim>\<open>struct.unpack("<16B", c)\<close>: each raises \<^verbatim>\<open>struct.error\<close> unless the
  string has exactly the size of the format.
\<close>

definition unpack_B :: "bytes \<Rightarrow> error + nat" where
  "unpack_B c = (if length c = 1 then Inr (unat (c ! 0)) else Inl StructError)"

definition unpack_H :: "bytes \<Rightarrow> error + nat" where
  "unpack_H c = (if length c = 2 then Inr (unat (c ! 0) + 256 * unat (c ! 1)) else Inl StructError)"

definition unpack_16B :: "bytes \<Rightarrow> error + nat list" where
  "unpack_16B c = (if length c = 16 then Inr (map unat c) else Inl StructError)"

text \<open>\<^verbatim>\<open>struct.pack("<H", 0)\<close>: the two zero bytes that end a string set.\<close>

definition pack_H_0 :: bytes where
  "pack_H_0 = [0, 0]"

text \<open>\<^verbatim>\<open>struct.unpack("<B", s[i])[0]\<close>, the read the parser makes of one byte.\<close>

definition byte_at :: "bytes \<Rightarrow> nat \<Rightarrow> error + nat" where
  "byte_at s i = (case str_index s i of Inl e \<Rightarrow> Inl e | Inr c \<Rightarrow> unpack_B c)"

text \<open>
  \<^verbatim>\<open>s.find(sub)\<close>: the lowest str_index at which \<^verbatim>\<open>sub\<close> occurs in
  \<^verbatim>\<open>s\<close>, or \<^verbatim>\<open>-1\<close> when it does not occur.
\<close>

fun str_find :: "'a list \<Rightarrow> 'a list \<Rightarrow> int" where
  "str_find [] sub = (if sub = [] then 0 else - 1)"
| "str_find (x # xs) sub =
     (if take (length sub) (x # xs) = sub then 0
      else (let r = str_find xs sub in if r < 0 then - 1 else r + 1))"

text \<open>\<^verbatim>\<open>"%x" % n\<close> for a non-negative integer: lowercase hexadecimal, no padding.\<close>

definition hex_digit :: "nat \<Rightarrow> char" where
  "hex_digit n = ''0123456789abcdef'' ! n"

fun fmt_x :: "nat \<Rightarrow> string" where
  "fmt_x n = (if n < 16 then [hex_digit n] else fmt_x (n div 16) @ [hex_digit (n mod 16)])"

declare fmt_x.simps [simp del]

section \<open>ParseSMBIOSTable\<close>

text \<open>\<^verbatim>\<open>self.table_data\<close>: a dictionary from handle to the structure's raw bytes.\<close>

type_synonym table = "nat \<rightharpoonup> bytes"

subsection \<open>walk\_structure\<close>

text \<open>
  The loop of \<^verbatim>\<open>walk_structure\<close> over the state
  (\<^verbatim>\<open>self.table_data\<close>, \<^verbatim>\<open>self.SMBIOSTableData\<close>). The two lengths
  of one iteration are named as in the source.
\<close>

definition unformatted_len :: "nat \<Rightarrow> bytes \<Rightarrow> int" where
  "unformatted_len formatted_len d = str_find (drop formatted_len d) pack_H_0 + 2"

function walk_structure :: "table \<Rightarrow> bytes \<Rightarrow> error + table" where
  "walk_structure table_data d =
     (case byte_at d 1 of
        Inl e \<Rightarrow> (if e = IndexError then Inr table_data else Inl e)
      | Inr formatted_len \<Rightarrow>
          (case unpack_H (str_slice d 2 4) of
             Inl e \<Rightarrow> Inl e
           | Inr handle \<Rightarrow>
               (let n = nat (int formatted_len + unformatted_len formatted_len d)
                in walk_structure (table_data(handle \<mapsto> take n d)) (drop n d))))"
  by pat_completeness auto
termination
proof (relation "measure (\<lambda>(t, d). length d)")
  show "wf (measure (\<lambda>(t, d). length d))" by simp
next
  fix table_data :: table and d :: bytes and formatted_len handle n
  assume b: "byte_at d 1 = Inr formatted_len"
    and n: "n = nat (int formatted_len + unformatted_len formatted_len d)"
  from b have "1 < length d"
    by (auto simp: byte_at_def str_index_def split: if_splits)
  moreover have "- 1 \<le> str_find xs pack_H_0" for xs :: bytes
    by (induction xs) (auto simp: Let_def)
  from this [of "drop formatted_len d"] have "1 \<le> unformatted_len formatted_len d"
    by (simp add: unformatted_len_def)
  with n have "1 \<le> n" by simp
  ultimately show "((table_data(handle \<mapsto> take n d), drop n d), (table_data, d))
      \<in> measure (\<lambda>(t, d). length d)"
    by simp
qed

declare walk_structure.simps [simp del]

subsection \<open>parse\_type1\<close>

text \<open>
  \<^verbatim>\<open>self.type1_data\<close>: the dictionary \<^verbatim>\<open>parse_type1\<close> fills. The keys
  "SKU Number" and "Family" are set inside a \<^verbatim>\<open>try\<close> and may stay unset.
\<close>

record type1_data =
  Length :: nat
  Handle :: nat
  Manufacturer :: nat
  Product_Name :: nat
  Version :: nat
  Serial_Number :: nat
  UUID :: "nat list"
  Wake_up_Type :: nat
  SKU_Number :: "nat option"
  Family :: "nat option"

text \<open>
  The \<^verbatim>\<open>try\<close> block at the end of \<^verbatim>\<open>parse_type1\<close>: the two assignments
  run in order, and an IndexError of either ends the block silently, keeping what was
  assigned before it.
\<close>

definition parse_optional :: "bytes \<Rightarrow> type1_data \<Rightarrow> error + type1_data" where
  "parse_optional raw_data r =
     (case byte_at raw_data 26 of
        Inl e \<Rightarrow> (if e = IndexError then Inr r else Inl e)
      | Inr sku \<Rightarrow>
          (case byte_at raw_data 27 of
             Inl e \<Rightarrow> (if e = IndexError then Inr (r\<lparr>SKU_Number := Some sku\<rparr>) else Inl e)
           | Inr fam \<Rightarrow> Inr (r\<lparr>SKU_Number := Some sku, Family := Some fam\<rparr>)))"

definition parse_type1 :: "table \<Rightarrow> error + type1_data" where
  "parse_type1 table_data =
     (case table_data 1 of
        None \<Rightarrow> Inl KeyError
      | Some raw_data \<Rightarrow>
     (case byte_at raw_data 1 of Inl e \<Rightarrow> Inl e | Inr len \<Rightarrow>
     (case unpack_H (str_slice raw_data 2 4) of Inl e \<Rightarrow> Inl e | Inr handle \<Rightarrow>
     (case byte_at raw_data 5 of Inl e \<Rightarrow> Inl e | Inr manufacturer \<Rightarrow>
     (case byte_at raw_data 6 of Inl e \<Rightarrow> Inl e | Inr product_name \<Rightarrow>
     (case byte_at raw_data 7 of Inl e \<Rightarrow> Inl e | Inr version \<Rightarrow>
     (case byte_at raw_data 8 of Inl e \<Rightarrow> Inl e | Inr serial_number \<Rightarrow>
     (case unpack_16B (str_slice raw_data 8 24) of Inl e \<Rightarrow> Inl e | Inr uuid \<Rightarrow>
     (case byte_at raw_data 25 of Inl e \<Rightarrow> Inl e | Inr wake_up_type \<Rightarrow>
        parse_optional raw_data
          \<lparr>Length = len, Handle = handle, Manufacturer = manufacturer,
           Product_Name = product_name, Version = version,
           Serial_Number = serial_number, UUID = uuid, Wake_up_Type = wake_up_type,
           SKU_Number = None, Family = None\<rparr>)))))))))"

text \<open>\<^verbatim>\<open>ParseSMBIOSTable.__call__\<close>: walk from an empty table, then parse Type 1.\<close>

definition parse_smbios :: "bytes \<Rightarrow> error + type1_data" where
  "parse_smbios SMBIOSTableData =
     (case walk_structure Map.empty SMBIOSTableData of
        Inl e \<Rightarrow> Inl e
      | Inr table_data \<Rightarrow> parse_type1 table_data)"

section \<open>Formatting the UUID\<close>

text \<open>
  The end of \<^verbatim>\<open>_get_win32_uuid\<close>: the format string
  \<^verbatim>\<open>"%x%x%x%x-%x%x-%x%x-%x%x-%x%x%x%x%x%x"\<close> applied to
  \<^verbatim>\<open>raw_uuid[0]\<close>, ..., \<^verbatim>\<open>raw_uuid[15]\<close>. Indexing a tuple out of
  range raises IndexError.
\<close>

definition format_uuid :: "nat list \<Rightarrow> error + string" where
  "format_uuid raw_uuid =
     (if length raw_uuid < 16 then Inl IndexError
      else Inr (fmt_x (raw_uuid ! 0) @ fmt_x (raw_uuid ! 1) @ fmt_x (raw_uuid ! 2)
                @ fmt_x (raw_uuid ! 3) @ ''-''
                @ fmt_x (raw_uuid ! 4) @ fmt_x (raw_uuid ! 5) @ ''-''
                @ fmt_x (raw_uuid ! 6) @ fmt_x (raw_uuid ! 7) @ ''-''
                @ fmt_x (raw_uuid ! 8) @ fmt_x (raw_uuid ! 9) @ ''-''
                @ fmt_x (raw_uuid ! 10) @ fmt_x (raw_uuid ! 11) @ fmt_x (raw_uuid ! 12)
                @ fmt_x (raw_uuid ! 13) @ fmt_x (raw_uuid ! 14) @ fmt_x (raw_uuid ! 15)))"

text \<open>
  \<^verbatim>\<open>_get_win32_uuid\<close> from the point where the firmware table has been read:
  parse it, then format the UUID of the Type 1 record.
\<close>

definition get_win32_uuid :: "bytes \<Rightarrow> error + string" where
  "get_win32_uuid SMBIOSTableData =
     (case parse_smbios SMBIOSTableData of
        Inl e \<Rightarrow> Inl e
      | Inr type1 \<Rightarrow> format_uuid (UUID type1))"

section \<open>Well-formed structures\<close>

text \<open>
  The handle of a structure: the little-endian 16-bit value of its bytes 2 and 3.
\<close>

definition handle_of :: "bytes \<Rightarrow> nat" where
  "handle_of s = unat (s ! 2) + 256 * unat (s ! 3)"

text \<open>A byte string in which no two adjacent bytes are both zero.\<close>

fun no_terminator :: "bytes \<Rightarrow> bool" where
  "no_terminator (x # y # zs) = (\<not> (x = 0 \<and> y = 0) \<and> no_terminator (y # zs))"
| "no_terminator [x] = True"
| "no_terminator [] = True"

text \<open>
  A well-formed structure: its length byte \<open>L\<close> is at least 4, the formatted section of
  \<open>L\<close> bytes is followed by an unformatted section that ends in two zero bytes, and
  these are the first two adjacent zero bytes of the unformatted section.
\<close>

definition well_formed :: "bytes \<Rightarrow> bool" where
  "well_formed s =
     (let L = unat (s ! 1); u = drop L s
      in 4 \<le> L \<and> L + 2 \<le> length s \<and> drop (length u - 2) u = [0, 0]
         \<and> no_terminator (butlast u))"

text \<open>
  The loop with a bound on its iterations: \<open>None\<close> when the bound is reached before
  the loop has ended.
\<close>

fun walk_fuel :: "nat \<Rightarrow> table \<Rightarrow> bytes \<Rightarrow> (error + table) option" where
  "walk_fuel 0 table_data d = None"
| "walk_fuel (Suc k) table_data d =
     (case byte_at d 1 of
        Inl e \<Rightarrow> Some (if e = IndexError then Inr table_data else Inl e)
      | Inr formatted_len \<Rightarrow>
          (case unpack_H (str_slice d 2 4) of
             Inl e \<Rightarrow> Some (Inl e)
           | Inr handle \<Rightarrow>
               (let n = nat (int formatted_len + unformatted_len formatted_len d)
                in walk_fuel k (table_data(handle \<mapsto> take n d)) (drop n d))))"

text \<open>Two lowercase hexadecimal digits for a value below 256.\<close>

definition hex2 :: "nat \<Rightarrow> string" where
  "hex2 n = [hex_digit (n div 16), hex_digit (n mod 16)]"

section \<open>Facts about the walk\<close>

lemma str_find_ge: "- 1 \<le> str_find xs sub"
  by (induction xs) (auto simp: Let_def)

lemma unformatted_len_ge: "1 \<le> unformatted_len l d"
  using str_find_ge [of "drop l d" pack_H_0] by (simp add: unformatted_len_def)

lemma str_find_no_terminator: "no_terminator xs \<Longrightarrow> str_find xs pack_H_0 = - 1"
  by (induction xs rule: no_terminator.induct) (auto simp: pack_H_0_def Let_def)

lemma str_find_terminator:
  "no_terminator (v @ [0]) \<Longrightarrow> str_find (v @ 0 # 0 # rest) pack_H_0 = int (length v)"
proof (induction v)
  case Nil
  then show ?case by (simp add: pack_H_0_def)
next
  case (Cons x v)
  then show ?case
    by (cases v) (auto simp: pack_H_0_def Let_def)
qed

lemma well_formed_split:
  assumes "well_formed s"
  obtains v where "s = take (unat (s ! 1)) s @ v @ [0, 0]" "no_terminator (v @ [0])"
    "4 \<le> unat (s ! 1)" "unat (s ! 1) + 2 \<le> length s"
proof -
  define L where "L = unat (s ! 1)"
  define u where "u = drop L s"
  from assms have L: "4 \<le> L" "L + 2 \<le> length s"
    and e: "drop (length u - 2) u = [0, 0]" and n: "no_terminator (butlast u)"
    unfolding well_formed_def Let_def L_def u_def by blast+
  define v where "v = take (length u - 2) u"
  have u: "u = v @ [0, 0]"
    using e append_take_drop_id [of "length u - 2" u] by (simp add: v_def)
  then have "butlast u = v @ [0]" by (simp add: butlast_append)
  with n have "no_terminator (v @ [0])" by simp
  moreover have "s = take L s @ v @ [0, 0]"
    using u append_take_drop_id [of L s] by (simp add: u_def)
  ultimately show thesis using that L by (simp add: L_def)
qed

lemma str_slice_2_4: "4 \<le> length s \<Longrightarrow> str_slice (s @ rest) 2 4 = [s ! 2, s ! 3]"
  by (auto simp: str_slice_def numeral_eq_Suc Suc_le_length_iff)

lemma unpack_handle:
  "4 \<le> length s \<Longrightarrow> unpack_H (str_slice (s @ rest) 2 4) = Inr (handle_of s)"
  by (simp add: str_slice_2_4 unpack_H_def handle_of_def)

lemma byte_at_append: "i < length s \<Longrightarrow> byte_at (s @ rest) i = Inr (unat (s ! i))"
  by (simp add: byte_at_def str_index_def unpack_B_def nth_append)

lemma walk_structure_well_formed:
  assumes "well_formed s"
  shows "walk_structure t (s @ rest) = walk_structure (t(handle_of s \<mapsto> s)) rest"
proof -
  define L where "L = unat (s ! 1)"
  from assms obtain v where s: "s = take L s @ v @ [0, 0]" and v: "no_terminator (v @ [0])"
    and L: "4 \<le> L" "L + 2 \<le> length s"
    unfolding L_def by (rule well_formed_split)
  have b: "byte_at (s @ rest) (Suc 0) = Inr L"
    using L by (simp add: byte_at_append L_def)
  have h: "unpack_H (str_slice (s @ rest) 2 4) = Inr (handle_of s)"
    using L by (simp add: unpack_handle)
  have lv: "length v = length s - (L + 2)"
    using arg_cong [OF s, of length] L by simp
  have "drop L (s @ rest) = v @ 0 # 0 # rest"
    using arg_cong [OF s, of "drop L"] L by simp
  then have "unformatted_len L (s @ rest) = int (length v) + 2"
    using str_find_terminator [OF v, of rest] by (simp add: unformatted_len_def)
  then have n: "nat (int L + unformatted_len L (s @ rest)) = length s"
    using lv L by simp
  show ?thesis
    by (subst walk_structure.simps) (simp add: b h n Let_def)
qed

lemma walk_structure_short: "length d < 2 \<Longrightarrow> walk_structure t d = Inr t"
  by (subst walk_structure.simps) (simp add: byte_at_def str_index_def)

lemma walk_structure_concat:
  "list_all well_formed ss \<Longrightarrow>
   walk_structure t (concat ss @ rest) =
   walk_structure (foldl (\<lambda>m s. m(handle_of s \<mapsto> s)) t ss) rest"
  by (induction ss arbitrary: t) (simp_all add: walk_structure_well_formed)

lemma walk_structure_concat_all:
  "list_all well_formed ss \<Longrightarrow>
   walk_structure t (concat ss) = Inr (foldl (\<lambda>m s. m(handle_of s \<mapsto> s)) t ss)"
  using walk_structure_concat [of ss t "[]"] by (simp add: walk_structure_short)

lemma foldl_table_lookup:
  "foldl (\<lambda>m s. m(handle_of s \<mapsto> s)) t ss h =
   (if \<exists>r \<in> set ss. handle_of r = h
    then Some (last (filter (\<lambda>r. handle_of r = h) ss)) else t h)"
  by (induction ss rule: rev_induct) auto

lemma foldl_table_dom:
  "dom (foldl (\<lambda>m s. m(handle_of s \<mapsto> s)) t ss) = dom t \<union> handle_of ` set ss"
  by (induction ss arbitrary: t) auto

lemma last_filter_distinct:
  "distinct (map f ss) \<Longrightarrow> s \<in> set ss \<Longrightarrow> last (filter (\<lambda>r. f r = f s) ss) = s"
proof -
  assume d: "distinct (map f ss)" and s: "s \<in> set ss"
  have "filter (\<lambda>r. f r = f s) ss = [s]"
    using d s by (induction ss) (auto simp: image_iff filter_empty_conv)
  then show ?thesis by simp
qed

lemma walk_structure_unterminated:
  assumes "4 \<le> length d" and "no_terminator (drop (unat (d ! 1)) d)"
  shows "walk_structure t d =
         walk_structure (t(handle_of d \<mapsto> take (unat (d ! 1) + 1) d))
           (drop (unat (d ! 1) + 1) d)"
proof -
  define L where "L = unat (d ! 1)"
  have b: "byte_at d (Suc 0) = Inr L"
    using assms(1) byte_at_append [of 1 d "[]"] by (simp add: L_def)
  have h: "unpack_H (str_slice d 2 4) = Inr (handle_of d)"
    using assms(1) unpack_handle [of d "[]"] by simp
  have "unformatted_len L d = 1"
    using str_find_no_terminator [OF assms(2)] by (simp add: unformatted_len_def L_def)
  then have n: "nat (int L + unformatted_len L d) = L + 1" by simp
  have "walk_structure t d =
        walk_structure (t(handle_of d \<mapsto> take (L + 1) d)) (drop (L + 1) d)"
    by (subst walk_structure.simps) (simp add: b h n Let_def)
  then show ?thesis by (simp add: L_def)
qed

lemma walk_fuel_enough: "length d < k \<Longrightarrow> walk_fuel k t d = Some (walk_structure t d)"
proof (induction k arbitrary: t d)
  case 0
  then show ?case by simp
next
  case (Suc k)
  show ?case
  proof (cases "byte_at d 1")
    case (Inl e)
    then show ?thesis by (subst walk_structure.simps) simp
  next
    case b: (Inr l)
    show ?thesis
    proof (cases "unpack_H (str_slice d 2 4)")
      case (Inl e)
      with b show ?thesis by (subst walk_structure.simps) simp
    next
      case h: (Inr handle)
      define n where "n = nat (int l + unformatted_len l d)"
      from b have "1 < length d"
        by (auto simp: byte_at_def str_index_def split: if_splits)
      moreover have "1 \<le> n"
        using unformatted_len_ge [of l d] by (simp add: n_def)
      ultimately have "length (drop n d) < k" using Suc.prems by simp
      then have "walk_fuel k (t(handle \<mapsto> take n d)) (drop n d) =
                 Some (walk_structure (t(handle \<mapsto> take n d)) (drop n d))"
        by (rule Suc.IH)
      with b h show ?thesis
        by (subst walk_structure.simps) (simp add: Let_def n_def)
    qed
  qed
qed

section \<open>The structure walk\<close>

text \<open>
  C6. A buffer that holds one well-formed structure and nothing else (a formatted section
  \<open>F\<close> of at least 4 bytes whose length byte is its own length, then the two zero
  bytes) is walked to a table with exactly one entry: the handle read from bytes 2 and 3
  maps to the whole buffer.
\<close>

theorem walk_single_structure:
  assumes "4 \<le> length F" and "unat (F ! 1) = length F"
  shows "walk_structure Map.empty (F @ [0, 0]) =
         Inr (Map.empty(unat (F ! 2) + 256 * unat (F ! 3) \<mapsto> F @ [0, 0]))"
proof -
  have w: "well_formed (F @ [0, 0])"
    using assms by (simp add: well_formed_def Let_def nth_append)
  have h: "handle_of (F @ [0, 0]) = unat (F ! 2) + 256 * unat (F ! 3)"
    using assms by (simp add: handle_of_def nth_append)
  show ?thesis
    using walk_structure_well_formed [OF w, of Map.empty "[]"]
    by (simp add: h walk_structure_short)
qed

theorem walk_single_structure_witness:
  "4 \<le> length [1, 8, 1, 0, 1, 2, 3, 4 :: byte]
   \<and> unat ([1, 8, 1, 0, 1, 2, 3, 4 :: byte] ! 1) = length [1, 8, 1, 0, 1, 2, 3, 4 :: byte]
   \<and> walk_structure Map.empty [1, 8, 1, 0, 1, 2, 3, 4, 0, 0] =
       Inr (Map.empty(1 \<mapsto> [1, 8, 1, 0, 1, 2, 3, 4, 0, 0]))"
  using walk_single_structure [of "[1, 8, 1, 0, 1, 2, 3, 4]"] by simp

text \<open>
  C7. Round trip: the concatenation of well-formed structures with pairwise distinct
  handles is walked to a table with as many entries as there were structures, whose keys
  are their handles, and in which every handle maps to exactly the bytes of its own
  structure.
\<close>

theorem walk_round_trip:
  assumes "list_all well_formed ss" and "distinct (map handle_of ss)"
  shows "\<exists>m. walk_structure Map.empty (concat ss) = Inr m
           \<and> card (dom m) = length ss
           \<and> dom m = handle_of ` set ss
           \<and> (\<forall>s \<in> set ss. m (handle_of s) = Some s)"
proof -
  let ?m = "foldl (\<lambda>m s. m(handle_of s \<mapsto> s)) Map.empty ss"
  have "walk_structure Map.empty (concat ss) = Inr ?m"
    using assms(1) by (rule walk_structure_concat_all)
  moreover have d: "dom ?m = handle_of ` set ss"
    by (simp add: foldl_table_dom)
  moreover have "card (dom ?m) = length ss"
    using distinct_card [OF assms(2)] by (simp add: d)
  moreover have "\<forall>s \<in> set ss. ?m (handle_of s) = Some s"
    using assms(2) by (auto simp: foldl_table_lookup last_filter_distinct)
  ultimately show ?thesis by blast
qed

theorem walk_round_trip_witness:
  "list_all well_formed [[1, 4, 1, 0, 0, 0], [2, 5, 2, 0, 9, 65, 0, 0]]
   \<and> distinct (map handle_of [[1, 4, 1, 0, 0, 0], [2, 5, 2, 0, 9, 65, 0, 0]])
   \<and> (\<exists>m. walk_structure Map.empty [1, 4, 1, 0, 0, 0, 2, 5, 2, 0, 9, 65, 0, 0] = Inr m
          \<and> card (dom m) = 2
          \<and> m 1 = Some [1, 4, 1, 0, 0, 0]
          \<and> m 2 = Some [2, 5, 2, 0, 9, 65, 0, 0])"
proof -
  have w: "list_all well_formed [[1, 4, 1, 0, 0, 0], [2, 5, 2, 0, 9, 65, 0, 0]]"
    by (simp add: well_formed_def)
  have d: "distinct (map handle_of [[1, 4, 1, 0, 0, 0], [2, 5, 2, 0, 9, 65, 0, 0]])"
    by (simp add: handle_of_def)
  show ?thesis
    using walk_round_trip [OF w d] w d by (auto simp: handle_of_def)
qed

text \<open>
  C8. When well-formed structures share a handle the walk still returns a table, and the
  entry of a handle is the last structure of the buffer that carries it.
\<close>

theorem walk_duplicate_handles:
  assumes "list_all well_formed ss" and "s \<in> set ss"
  shows "\<exists>m. walk_structure Map.empty (concat ss) = Inr m
           \<and> m (handle_of s) = Some (last (filter (\<lambda>r. handle_of r = handle_of s) ss))"
proof -
  let ?m = "foldl (\<lambda>m s. m(handle_of s \<mapsto> s)) Map.empty ss"
  have "walk_structure Map.empty (concat ss) = Inr ?m"
    using assms(1) by (rule walk_structure_concat_all)
  moreover have "?m (handle_of s) = Some (last (filter (\<lambda>r. handle_of r = handle_of s) ss))"
    using assms(2) by (auto simp: foldl_table_lookup)
  ultimately show ?thesis by blast
qed

theorem walk_duplicate_handles_witness:
  "list_all well_formed [[1, 4, 1, 0, 0, 0], [2, 5, 1, 0, 9, 65, 0, 0]]
   \<and> [2, 5, 1, 0, 9, 65, 0, 0] \<in> set [[1, 4, 1, 0, 0, 0], [2, 5, 1, 0, 9, 65, 0, 0]]
   \<and> (\<exists>m. walk_structure Map.empty [1, 4, 1, 0, 0, 0, 2, 5, 1, 0, 9, 65, 0, 0] = Inr m
          \<and> m 1 = Some [2, 5, 1, 0, 9, 65, 0, 0])"
proof -
  have w: "list_all well_formed [[1, 4, 1, 0, 0, 0], [2, 5, 1, 0, 9, 65, 0, 0]]"
    by (simp add: well_formed_def)
  show ?thesis
    using walk_duplicate_handles [OF w, of "[1, 4, 1, 0, 0, 0]"] w
    by (auto simp: handle_of_def)
qed

text \<open>
  C3, as the code has it. The claim asks for an error when fewer bytes remain than the
  length byte declares. The walk has no such check: when it reaches, after any number of
  well-formed structures, a structure of at least 4 bytes whose length byte is larger than
  what remains, it stores all the remaining bytes under that structure's handle and
  returns the table.
\<close>

theorem walk_truncated_structure:
  assumes "list_all well_formed ss" and "4 \<le> length d" and "length d < unat (d ! 1)"
  shows "\<exists>m. walk_structure t (concat ss) = Inr m
           \<and> walk_structure t (concat ss @ d) = Inr (m(handle_of d \<mapsto> d))"
proof -
  let ?m = "foldl (\<lambda>m s. m(handle_of s \<mapsto> s)) t ss"
  have "walk_structure t (concat ss) = Inr ?m"
    using assms(1) by (rule walk_structure_concat_all)
  moreover have "walk_structure t (concat ss @ d) = walk_structure ?m d"
    using assms(1) by (rule walk_structure_concat)
  moreover have "walk_structure ?m d = Inr (?m(handle_of d \<mapsto> d))"
    using assms(3) walk_structure_unterminated [of d ?m] assms(2)
    by (simp add: walk_structure_short)
  ultimately show ?thesis by simp
qed

theorem walk_truncated_structure_witness:
  "list_all well_formed [[2, 4, 2, 0, 0, 0]] \<and> 4 \<le> length [1, 27, 1, 0, 9 :: byte]
   \<and> length [1, 27, 1, 0, 9 :: byte] < unat ([1, 27, 1, 0, 9 :: byte] ! 1)
   \<and> walk_structure Map.empty [2, 4, 2, 0, 0, 0, 1, 27, 1, 0, 9] =
       Inr (Map.empty(2 \<mapsto> [2, 4, 2, 0, 0, 0], 1 \<mapsto> [1, 27, 1, 0, 9]))"
proof -
  have w: "list_all well_formed [[2, 4, 2, 0, 0, 0]]"
    by (simp add: well_formed_def)
  have l: "4 \<le> length [1, 27, 1, 0, 9 :: byte]" by simp
  have u: "length [1, 27, 1, 0, 9 :: byte] < unat ([1, 27, 1, 0, 9 :: byte] ! 1)" by simp
  have s: "walk_structure Map.empty (concat [[2, 4, 2, 0, 0, 0]]) = Inr (Map.empty(2 \<mapsto> [2, 4, 2, 0, 0, 0]))"
    using walk_structure_concat_all [OF w, of Map.empty] by (simp add: handle_of_def)
  show ?thesis
    using walk_truncated_structure [OF w l u, of Map.empty] w s
    by (auto simp: handle_of_def)
qed

text \<open>
  The claim as stated fails on the 5-byte buffer \<open>01 1B 01 00 09\<close>, which
  declares 27 bytes: the walk returns a table, not an error.
\<close>

theorem walk_truncated_structure_counterexample:
  "walk_structure Map.empty [1, 27, 1, 0, 9] = Inr (Map.empty(1 \<mapsto> [1, 27, 1, 0, 9]))
   \<and> \<not> isl (walk_structure Map.empty [1, 27, 1, 0, 9])"
  by (simp add: walk_structure.simps byte_at_def str_index_def unpack_B_def unpack_H_def
      str_slice_def unformatted_len_def pack_H_0_def)

text \<open>
  C4, as the code has it. The claim asks for an error when no two zero bytes follow the
  formatted section. The walk instead takes the unformatted length to be 1: the structure
  is stored as its first \<open>L + 1\<close> bytes and the walk goes on from offset
  \<open>L + 1\<close>; when at most \<open>L + 2\<close> bytes remained, it ends there and
  returns the table.
\<close>

theorem walk_missing_terminator:
  assumes "list_all well_formed ss" and "4 \<le> length d"
    and "no_terminator (drop (unat (d ! 1)) d)"
  shows "\<exists>m. walk_structure t (concat ss) = Inr m
           \<and> walk_structure t (concat ss @ d) =
               walk_structure (m(handle_of d \<mapsto> take (unat (d ! 1) + 1) d))
                 (drop (unat (d ! 1) + 1) d)
           \<and> (length d \<le> unat (d ! 1) + 2 \<longrightarrow>
                walk_structure t (concat ss @ d) =
                  Inr (m(handle_of d \<mapsto> take (unat (d ! 1) + 1) d)))"
proof -
  let ?m = "foldl (\<lambda>m s. m(handle_of s \<mapsto> s)) t ss"
  have "walk_structure t (concat ss) = Inr ?m"
    using assms(1) by (rule walk_structure_concat_all)
  moreover have "walk_structure t (concat ss @ d) = walk_structure ?m d"
    using assms(1) by (rule walk_structure_concat)
  moreover note walk_structure_unterminated [OF assms(2,3), of ?m]
  ultimately show ?thesis by (simp add: walk_structure_short)
qed

theorem walk_missing_terminator_witness:
  "list_all well_formed [[2, 4, 2, 0, 0, 0]] \<and> 4 \<le> length [1, 4, 1, 0, 65, 66 :: byte]
   \<and> no_terminator (drop (unat ([1, 4, 1, 0, 65, 66 :: byte] ! 1)) [1, 4, 1, 0, 65, 66])
   \<and> length [1, 4, 1, 0, 65, 66 :: byte] \<le> unat ([1, 4, 1, 0, 65, 66 :: byte] ! 1) + 2
   \<and> walk_structure Map.empty [2, 4, 2, 0, 0, 0, 1, 4, 1, 0, 65, 66] =
       Inr (Map.empty(2 \<mapsto> [2, 4, 2, 0, 0, 0], 1 \<mapsto> [1, 4, 1, 0, 65]))"
proof -
  have w: "list_all well_formed [[2, 4, 2, 0, 0, 0]]"
    by (simp add: well_formed_def)
  have l: "4 \<le> length [1, 4, 1, 0, 65, 66 :: byte]" by simp
  have n: "no_terminator (drop (unat ([1, 4, 1, 0, 65, 66 :: byte] ! 1)) [1, 4, 1, 0, 65, 66])"
    by simp
  have s: "walk_structure Map.empty (concat [[2, 4, 2, 0, 0, 0]]) = Inr (Map.empty(2 \<mapsto> [2, 4, 2, 0, 0, 0]))"
    using walk_structure_concat_all [OF w, of Map.empty] by (simp add: handle_of_def)
  show ?thesis
    using walk_missing_terminator [OF w l n, of Map.empty] w s
    by (auto simp: handle_of_def)
qed

text \<open>
  The claim as stated fails on the buffer \<open>01 04 01 00 41 42\<close>, whose
  unformatted section \<open>41 42\<close> has no terminator: the walk returns a table.
\<close>

theorem walk_missing_terminator_counterexample:
  "walk_structure Map.empty [1, 4, 1, 0, 65, 66] = Inr (Map.empty(1 \<mapsto> [1, 4, 1, 0, 65]))
   \<and> \<not> isl (walk_structure Map.empty [1, 4, 1, 0, 65, 66])"
  by (simp add: walk_structure.simps byte_at_def str_index_def unpack_B_def unpack_H_def
      str_slice_def unformatted_len_def pack_H_0_def)

text \<open>
  C10. The walk terminates on every buffer. The unformatted length of an iteration is at
  least 1, also when no terminator is found, so the consumed length is at least 1 and the
  remaining buffer gets strictly shorter; with fewer than 2 bytes the loop exits and
  returns the table; and the loop bounded by one more iteration than the buffer has bytes
  always reaches its end, with the result of the walk.
\<close>

theorem walk_structure_terminates:
  "1 \<le> unformatted_len l d
   \<and> 1 \<le> int l + unformatted_len l d
   \<and> (2 \<le> length d \<longrightarrow> length (drop (nat (int l + unformatted_len l d)) d) < length d)
   \<and> (length d < 2 \<longrightarrow> walk_structure t d = Inr t)
   \<and> walk_fuel (Suc (length d)) t d = Some (walk_structure t d)"
proof -
  have u: "1 \<le> unformatted_len l d" by (rule unformatted_len_ge)
  define n where "n = nat (int l + unformatted_len l d)"
  from u have "1 \<le> n" by (simp add: n_def)
  then have "2 \<le> length d \<longrightarrow> length (drop n d) < length d"
    by auto
  then have "2 \<le> length d \<longrightarrow> length (drop (nat (int l + unformatted_len l d)) d) < length d"
    by (simp only: n_def)
  moreover have "walk_fuel (Suc (length d)) t d = Some (walk_structure t d)"
    by (rule walk_fuel_enough) simp
  ultimately show ?thesis using u by (simp add: walk_structure_short)
qed

theorem walk_structure_terminates_witness:
  "2 \<le> length [1, 0, 1, 0, 7 :: byte]
   \<and> unformatted_len 0 [1, 0, 1, 0, 7] = 1
   \<and> length (drop (nat (int 0 + unformatted_len 0 [1, 0, 1, 0, 7])) [1, 0, 1, 0, 7 :: byte]) < length [1, 0, 1, 0, 7 :: byte]
   \<and> length [7 :: byte] < 2
   \<and> walk_structure Map.empty [7] = Inr Map.empty
   \<and> walk_fuel (Suc (length [1, 0, 1, 0, 7 :: byte])) Map.empty [1, 0, 1, 0, 7] =
       Some (walk_structure Map.empty [1, 0, 1, 0, 7])"
  using walk_structure_terminates [of 0 "[1, 0, 1, 0, 7]" Map.empty]
    walk_structure_terminates [of 0 "[7]" Map.empty]
  by (simp add: unformatted_len_def pack_H_0_def)

section \<open>Facts about the decoder and the formatter\<close>

lemma byte_at_cases:
  "byte_at s i = (if i < length s then Inr (unat (s ! i)) else Inl IndexError)"
  by (simp add: byte_at_def str_index_def unpack_B_def)

lemma parse_optional_ok:
  "parse_optional raw r =
     Inr (if length raw \<le> 26 then r
          else if length raw \<le> 27 then r\<lparr>SKU_Number := Some (unat (raw ! 26))\<rparr>
          else r\<lparr>SKU_Number := Some (unat (raw ! 26)), Family := Some (unat (raw ! 27))\<rparr>)"
  by (simp add: parse_optional_def byte_at_cases)

lemma walk_structure_error: "walk_structure t d = Inl e \<Longrightarrow> e = StructError"
proof (induction t d rule: walk_structure.induct)
  case (1 t d)
  from "1.prems" show ?case
    by (subst (asm) walk_structure.simps)
      (auto simp: byte_at_cases unpack_H_def Let_def split: if_splits sum.splits
        dest!: "1.IH" [rotated -1])
qed

lemma parse_type1_missing: "t 1 = None \<Longrightarrow> parse_type1 t = Inl KeyError"
  by (simp add: parse_type1_def)

lemma parse_type1_present: "t 1 = Some raw \<Longrightarrow> parse_type1 t \<noteq> Inl KeyError"
  by (auto simp: parse_type1_def byte_at_cases unpack_H_def unpack_16B_def parse_optional_ok
      split: sum.splits if_splits)

lemma parse_type1_reads:
  assumes "28 \<le> length raw"
  shows "parse_type1 (t(1 \<mapsto> raw)) =
         Inr \<lparr>Length = unat (raw ! 1), Handle = handle_of raw,
              Manufacturer = unat (raw ! 5), Product_Name = unat (raw ! 6),
              Version = unat (raw ! 7), Serial_Number = unat (raw ! 8),
              UUID = map unat (take 16 (drop 8 raw)), Wake_up_Type = unat (raw ! 25),
              SKU_Number = Some (unat (raw ! 26)), Family = Some (unat (raw ! 27))\<rparr>"
proof -
  have h: "unpack_H (str_slice raw 2 4) = Inr (handle_of raw)"
    using assms unpack_handle [of raw "[]"] by simp
  have u: "unpack_16B (str_slice raw 8 24) = Inr (map unat (take 16 (drop 8 raw)))"
    using assms by (simp add: unpack_16B_def str_slice_def)
  show ?thesis
    using assms by (simp add: parse_type1_def byte_at_cases h u parse_optional_ok)
qed

lemma parse_type1_fails_iff:
  "isl (parse_type1 (t(1 \<mapsto> raw))) = (length raw < 26)"
proof (cases "length raw < 26")
  case True
  then have "byte_at raw 25 = Inl IndexError" by (simp add: byte_at_cases)
  then show ?thesis
    using True by (auto simp: parse_type1_def split: sum.splits)
next
  case False
  then have h: "unpack_H (str_slice raw 2 4) = Inr (handle_of raw)"
    using unpack_handle [of raw "[]"] by simp
  have u: "unpack_16B (str_slice raw 8 24) = Inr (map unat (take 16 (drop 8 raw)))"
    using False by (simp add: unpack_16B_def str_slice_def)
  show ?thesis
    using False by (simp add: parse_type1_def byte_at_cases h u parse_optional_ok)
qed

lemma fmt_x_two_digits: "16 \<le> n \<Longrightarrow> n < 256 \<Longrightarrow> fmt_x n = hex2 n"
proof -
  assume n: "16 \<le> n" "n < 256"
  then have "n div 16 < 16" by simp
  then have "fmt_x (n div 16) = [hex_digit (n div 16)]"
    by (subst fmt_x.simps) simp
  with n show ?thesis
    by (subst fmt_x.simps) (simp add: hex2_def)
qed

lemma hex_digit_lowercase: "n < 16 \<Longrightarrow> hex_digit n \<in> set ''0123456789abcdef''"
  unfolding hex_digit_def by (rule nth_mem) simp

lemma hex2_lowercase:
  "b < 256 \<Longrightarrow> length (hex2 b) = 2 \<and> set (hex2 b) \<subseteq> set ''0123456789abcdef''"
proof -
  assume "b < 256"
  then have "b div 16 < 16" and "b mod 16 < 16" by simp_all
  then have "hex_digit (b div 16) \<in> set ''0123456789abcdef''"
    and "hex_digit (b mod 16) \<in> set ''0123456789abcdef''"
    by (simp_all only: hex_digit_lowercase)
  then show ?thesis by (simp add: hex2_def)
qed

lemma fmt_x_one_digit: "n < 16 \<Longrightarrow> fmt_x n = [hex_digit n]"
  by (subst fmt_x.simps) simp

lemma fmt_x_lowercase:
  "n < 256 \<Longrightarrow> fmt_x n \<noteq> [] \<and> set (fmt_x n) \<subseteq> set ''0123456789abcdef''"
proof (cases "n < 16")
  case True
  then show ?thesis
    using hex_digit_lowercase [of n] by (simp add: fmt_x_one_digit)
next
  case False
  assume "n < 256"
  with False show ?thesis
    using hex2_lowercase [of n] by (auto simp: fmt_x_two_digits)
qed

lemma format_uuid_shape:
  assumes "list_all (\<lambda>b. b < 256)
             [b0, b1, b2, b3, b4, b5, b6, b7, b8, b9, b10, b11, b12, b13, b14, b15]"
  shows "format_uuid [b0, b1, b2, b3, b4, b5, b6, b7, b8, b9, b10, b11, b12, b13, b14, b15] =
         Inr (fmt_x b0 @ fmt_x b1 @ fmt_x b2 @ fmt_x b3 @ ''-''
              @ fmt_x b4 @ fmt_x b5 @ ''-''
              @ fmt_x b6 @ fmt_x b7 @ ''-''
              @ fmt_x b8 @ fmt_x b9 @ ''-''
              @ fmt_x b10 @ fmt_x b11 @ fmt_x b12 @ fmt_x b13 @ fmt_x b14 @ fmt_x b15)
         \<and> list_all (\<lambda>b. fmt_x b \<noteq> [] \<and> set (fmt_x b) \<subseteq> set ''0123456789abcdef''
                           \<and> (16 \<le> b \<longrightarrow> fmt_x b = hex2 b)
                           \<and> (b < 16 \<longrightarrow> fmt_x b = [hex_digit b]))
             [b0, b1, b2, b3, b4, b5, b6, b7, b8, b9, b10, b11, b12, b13, b14, b15]"
proof -
  have "fmt_x b \<noteq> [] \<and> set (fmt_x b) \<subseteq> set ''0123456789abcdef''
        \<and> (16 \<le> b \<longrightarrow> fmt_x b = hex2 b) \<and> (b < 16 \<longrightarrow> fmt_x b = [hex_digit b])"
    if "b < 256" for b
    using that fmt_x_lowercase [of b] fmt_x_two_digits [of b] fmt_x_one_digit [of b] by blast
  with assms have "list_all (\<lambda>b. fmt_x b \<noteq> [] \<and> set (fmt_x b) \<subseteq> set ''0123456789abcdef''
                           \<and> (16 \<le> b \<longrightarrow> fmt_x b = hex2 b)
                           \<and> (b < 16 \<longrightarrow> fmt_x b = [hex_digit b]))
             [b0, b1, b2, b3, b4, b5, b6, b7, b8, b9, b10, b11, b12, b13, b14, b15]"
    by (simp only: list_all_iff) blast
  then show ?thesis by (simp add: format_uuid_def)
qed

section \<open>The Type 1 decoder\<close>

text \<open>
  C9. A table with no entry for handle 1 makes \<^verbatim>\<open>parse_type1\<close> raise KeyError,
  the exception of the failed lookup \<^verbatim>\<open>self.table_data[1]\<close>, and it raises
  KeyError in no other case; so a buffer whose walk returns a table without handle 1 makes
  the whole parse end in that error, and a parse that ends in it had such a table.
\<close>

theorem parse_type1_handle_not_found:
  "(t 1 = None \<longrightarrow> parse_type1 t = Inl KeyError)
   \<and> (parse_type1 t = Inl KeyError \<longrightarrow> t 1 = None)
   \<and> (walk_structure Map.empty d = Inr t \<and> t 1 = None \<longrightarrow> parse_smbios d = Inl KeyError)
   \<and> (parse_smbios d = Inl KeyError \<longrightarrow>
        (\<exists>m. walk_structure Map.empty d = Inr m \<and> m 1 = None))"
proof -
  have a: "t 1 = None \<longrightarrow> parse_type1 t = Inl KeyError"
    by (simp add: parse_type1_missing)
  have b: "parse_type1 m = Inl KeyError \<longrightarrow> m 1 = None" for m
    using parse_type1_present [of m] by (cases "m 1") auto
  have c: "walk_structure Map.empty d = Inr t \<and> t 1 = None \<longrightarrow> parse_smbios d = Inl KeyError"
    by (simp add: parse_smbios_def parse_type1_missing)
  have d: "parse_smbios d = Inl KeyError \<longrightarrow>
        (\<exists>m. walk_structure Map.empty d = Inr m \<and> m 1 = None)"
    using b by (auto simp: parse_smbios_def split: sum.splits dest: walk_structure_error)
  from a b c d show ?thesis by blast
qed

theorem parse_type1_handle_not_found_witness:
  "walk_structure Map.empty [2, 4, 2, 0, 0, 0] = Inr (Map.empty(2 \<mapsto> [2, 4, 2, 0, 0, 0]))
   \<and> (Map.empty(2 \<mapsto> [2, 4, 2, 0, 0, 0]) :: table) 1 = None
   \<and> parse_type1 (Map.empty(2 \<mapsto> [2, 4, 2, 0, 0, 0])) = Inl KeyError
   \<and> parse_smbios [2, 4, 2, 0, 0, 0] = Inl KeyError"
proof -
  have w: "walk_structure Map.empty [2, 4, 2, 0, 0, 0] = Inr (Map.empty(2 \<mapsto> [2, 4, 2, 0, 0, 0]))"
    by (simp add: walk_structure.simps byte_at_def str_index_def unpack_B_def unpack_H_def
        str_slice_def unformatted_len_def pack_H_0_def)
  show ?thesis
    using parse_type1_handle_not_found [of "Map.empty(2 \<mapsto> [2, 4, 2, 0, 0, 0])" "[2, 4, 2, 0, 0, 0]"] w
    by simp
qed

text \<open>
  C1. The claim places the four string references at bytes 4 to 7, the wake-up type at
  byte 24 and SKU number and family at bytes 25 and 26. The decoder reads them one byte
  further (lemma \<open>parse_type1_reads\<close>): on the structure below, whose bytes 4 to 7
  are \<open>A4 A5 A6 A7\<close> and whose bytes 24 to 26 are \<open>B8 B9 BA\<close>, the
  manufacturer is \<open>A5\<close>, the serial number is the first byte of the UUID, the
  wake-up type is \<open>B9\<close>, and the family is the first byte of the terminator.
\<close>

theorem parse_type1_offsets_off_by_one:
  "parse_smbios
     [1, 27, 1, 0, 0xA4, 0xA5, 0xA6, 0xA7,
      0x10, 0x11, 0x12, 0x13, 0x14, 0x15, 0x16, 0x17,
      0x18, 0x19, 0x1A, 0x1B, 0x1C, 0x1D, 0x1E, 0x1F,
      0xB8, 0xB9, 0xBA, 0, 0] =
   Inr \<lparr>Length = 27, Handle = 1, Manufacturer = 0xA5, Product_Name = 0xA6,
        Version = 0xA7, Serial_Number = 0x10,
        UUID = [0x10, 0x11, 0x12, 0x13, 0x14, 0x15, 0x16, 0x17,
                0x18, 0x19, 0x1A, 0x1B, 0x1C, 0x1D, 0x1E, 0x1F],
        Wake_up_Type = 0xB9, SKU_Number = Some 0xBA, Family = Some 0\<rparr>"
  by (simp add: parse_smbios_def walk_structure.simps byte_at_def str_index_def unpack_B_def
      unpack_H_def unpack_16B_def str_slice_def unformatted_len_def pack_H_0_def
      parse_type1_def parse_optional_def)

text \<open>
  C5. The claim lets a structure of 25 bytes decode. The decoder reads the wake-up type at
  index 25, outside the \<^verbatim>\<open>try\<close>, so it succeeds exactly from 26 bytes on
  (lemma \<open>parse_type1_fails_iff\<close>) and a 25-byte structure raises IndexError, both
  when it is decoded directly and when it is the whole buffer.
\<close>

theorem parse_type1_25_bytes_fails:
  "parse_type1 (Map.empty(1 \<mapsto>
     [1, 25, 1, 0, 1, 2, 3, 4,
      0x10, 0x11, 0x12, 0x13, 0x14, 0x15, 0x16, 0x17,
      0x18, 0x19, 0x1A, 0x1B, 0x1C, 0x1D, 0x1E, 0x1F, 6])) = Inl IndexError
   \<and> parse_smbios
     [1, 25, 1, 0, 1, 2, 3, 4,
      0x10, 0x11, 0x12, 0x13, 0x14, 0x15, 0x16, 0x17,
      0x18, 0x19, 0x1A, 0x1B, 0x1C, 0x1D, 0x1E, 0x1F, 6] = Inl IndexError"
  by (simp add: parse_smbios_def walk_structure.simps byte_at_def str_index_def unpack_B_def
      unpack_H_def unpack_16B_def str_slice_def unformatted_len_def pack_H_0_def
      parse_type1_def parse_optional_def)

section \<open>The UUID string\<close>

text \<open>
  C2. The claim has every byte rendered as exactly two lowercase hexadecimal digits, a
  zero byte as \<open>00\<close>. The format string uses \<^verbatim>\<open>%x\<close>, which does not
  pad: a value below 16 is rendered as one digit (lemma \<open>format_uuid_shape\<close>, which
  also gives the hyphens after the fourth, sixth, eighth and tenth value for every UUID
  and two digits for every value from 16 on). On the UUID bytes
  \<open>00 11 22 33 44 55 66 77 88 99 AA BB CC DD EE FF\<close> the string has 35
  characters and starts with a single \<open>0\<close>, both when the sixteen values are
  formatted directly and when they are decoded from a Type 1 structure first.
\<close>

theorem format_uuid_zero_byte_one_digit:
  "format_uuid
     [0x00, 0x11, 0x22, 0x33, 0x44, 0x55, 0x66, 0x77, 0x88, 0x99, 0xAA, 0xBB, 0xCC, 0xDD, 0xEE, 0xFF] =
     Inr ''0112233-4455-6677-8899-aabbccddeeff''
   \<and> get_win32_uuid
     [1, 27, 1, 0, 1, 2, 3, 4,
      0x00, 0x11, 0x22, 0x33, 0x44, 0x55, 0x66, 0x77,
      0x88, 0x99, 0xAA, 0xBB, 0xCC, 0xDD, 0xEE, 0xFF,
      6, 5, 2, 0, 0] =
     Inr ''0112233-4455-6677-8899-aabbccddeeff''
   \<and> fmt_x 0 = ''0''"
  by (simp add: get_win32_uuid_def parse_smbios_def walk_structure.simps byte_at_def
      str_index_def unpack_B_def unpack_H_def unpack_16B_def str_slice_def
      unformatted_len_def pack_H_0_def parse_type1_def parse_optional_def
      format_uuid_def fmt_x.simps hex_digit_def)

end
